theory Spec2Isabelle
  imports Complex_Main "HOL-Library.Word" "HOL-Library.Log_Nat"
begin

unbundle bit_operations_syntax

section \<open>Data model\<close>

text \<open>
  A Python \<open>bytes\<close> object is a list of 8-bit words. A Python \<open>str\<close> is a
  \<open>string\<close>; a character whose code is 128 or more is a non-ASCII character,
  on which \<open>encode('ascii')\<close> raises. The exceptions the code can raise are
  values of \<open>error\<close>; a function that can raise returns \<open>error + 'a\<close>. They are
  exceptions of the Python library and of the interpreter: the code defines
  none of its own, so there is no \<open>MalformedMessage\<close> and no \<open>InvalidLabel\<close>.
\<close>

type_synonym byte = "8 word"
type_synonym bytes = "byte list"

datatype error =
    IndexError
  | StructError
  | UnicodeDecodeError
  | UnicodeEncodeError
  | OSError
  | RecursionError
  | OverflowError

subsection \<open>Library primitives used by the codec\<close>

text \<open>\<open>'.'.join(parts)\<close>\<close>

fun join_dot :: "string list \<Rightarrow> string" where
  "join_dot [] = []"
| "join_dot [p] = p"
| "join_dot (p # q # ps) = p @ CHR ''.'' # join_dot (q # ps)"

text \<open>\<open>name.split('.')\<close>: never the empty list; the empty string gives one empty part.\<close>

fun split_dot :: "string \<Rightarrow> string list" where
  "split_dot [] = [[]]"
| "split_dot (c # cs) =
     (if c = CHR ''.'' then [] # split_dot cs
      else (case split_dot cs of
              p # ps \<Rightarrow> (c # p) # ps
            | [] \<Rightarrow> [[c]]))"

text \<open>\<open>struct.pack('!B', n)\<close> and \<open>struct.pack('!H', n)\<close>: \<open>struct.error\<close> out of range.\<close>

definition pack_B :: "nat \<Rightarrow> error + bytes" where
  "pack_B n = (if n \<le> 255 then Inr [of_nat n] else Inl StructError)"

definition pack_H :: "nat \<Rightarrow> error + bytes" where
  "pack_H n =
     (if n \<le> 65535 then Inr [of_nat (n div 256), of_nat (n mod 256)]
      else Inl StructError)"

text \<open>\<open>struct.unpack('!H', b)[0]\<close>: \<open>struct.error\<close> unless \<open>b\<close> has exactly two bytes.\<close>

definition unpack_H :: "bytes \<Rightarrow> error + 16 word" where
  "unpack_H b =
     (case b of
        [hi, lo] \<Rightarrow> Inr (push_bit 8 (ucast hi) OR ucast lo)
      | _ \<Rightarrow> Inl StructError)"

text \<open>\<open>part.encode('ascii')\<close> and \<open>b.decode('ascii')\<close>.\<close>

definition byte_of_char :: "char \<Rightarrow> byte" where
  "byte_of_char c = of_nat (of_char c)"

definition char_of_byte :: "byte \<Rightarrow> char" where
  "char_of_byte b = char_of (unat b)"

definition encode_ascii :: "string \<Rightarrow> error + bytes" where
  "encode_ascii s =
     (if list_all (\<lambda>c. (of_char c :: nat) < 128) s then Inr (map byte_of_char s)
      else Inl UnicodeEncodeError)"

definition decode_ascii :: "bytes \<Rightarrow> error + string" where
  "decode_ascii b =
     (if list_all (\<lambda>x. x < 128) b then Inr (map char_of_byte b)
      else Inl UnicodeDecodeError)"

text \<open>The slice \<open>data[i:j]\<close> for \<open>0 \<le> i \<le> j\<close>: it is cut at the end of the data.\<close>

definition slice :: "'a list \<Rightarrow> nat \<Rightarrow> nat \<Rightarrow> 'a list" where
  "slice xs i j = take (j - i) (drop i xs)"

section \<open>Message codec (\<open>dns_server.py\<close>)\<close>

subsection \<open>\<open>_parse_name\<close>\<close>

text \<open>
  The \<open>while True\<close> loop of \<open>_parse_name\<close> with its local list \<open>name\<close>, and the
  recursive call on a compression pointer, which starts a new loop with an
  empty list. The code does not bound the recursion; the interpreter does:
  \<open>depth\<close> is the number of nested calls of \<open>_parse_name\<close> that the recursion
  limit of the interpreter still allows when the function is called (with the
  default limit, 1000 less the frames that are on the stack), and a call
  beyond it raises \<open>RecursionError\<close>. The \<open>except\<close> clause prints and re-raises,
  so an exception is the result \<open>Inl\<close>. The depth falls in the recursive call
  and the offset grows in the loop, so the function is total.
\<close>

function parse_loop ::
  "nat \<Rightarrow> bytes \<Rightarrow> nat \<Rightarrow> string list \<Rightarrow> error + string \<times> nat" where
  "parse_loop depth data offset name =
     (if length data \<le> offset then Inl IndexError
      else let len = data ! offset in
        if len = 0 then Inr (join_dot name, offset + 1)
        else if len AND 0xc0 = 0xc0 then
          (case unpack_H (slice data offset (offset + 2)) of
             Inl e \<Rightarrow> Inl e
           | Inr w \<Rightarrow>
               if depth = 0 then Inl RecursionError
               else
                 (case parse_loop (depth - 1) data (unat (w AND 0x3fff)) [] of
                    Inl e \<Rightarrow> Inl e
                  | Inr (part, _) \<Rightarrow> Inr (join_dot (name @ [part]), offset + 2)))
        else
          (case decode_ascii (slice data (offset + 1) (offset + 1 + unat len)) of
             Inl e \<Rightarrow> Inl e
           | Inr label \<Rightarrow> parse_loop depth data (offset + 1 + unat len) (name @ [label])))"
  by pat_completeness auto
termination
  by (relation "measures [\<lambda>(depth, data, offset, name). depth,
                          \<lambda>(depth, data, offset, name). length data - offset]") auto

declare parse_loop.simps [simp del]

definition parse_name :: "nat \<Rightarrow> bytes \<Rightarrow> nat \<Rightarrow> error + string \<times> nat" where
  "parse_name depth data offset = parse_loop depth data offset []"

subsection \<open>\<open>_encode_name\<close>\<close>

text \<open>
  The generator is consumed part by part; for each part the length byte is
  packed before the part is encoded, and the first exception ends the call.
\<close>

fun encode_parts :: "string list \<Rightarrow> error + bytes" where
  "encode_parts [] = Inr []"
| "encode_parts (part # parts) =
     (case pack_B (length part) of
        Inl e \<Rightarrow> Inl e
      | Inr l \<Rightarrow>
          (case encode_ascii part of
             Inl e \<Rightarrow> Inl e
           | Inr b \<Rightarrow>
               (case encode_parts parts of
                  Inl e \<Rightarrow> Inl e
                | Inr r \<Rightarrow> Inr (l @ b @ r))))"

definition encode_name :: "string \<Rightarrow> error + bytes" where
  "encode_name name =
     (case encode_parts (split_dot name) of
        Inl e \<Rightarrow> Inl e
      | Inr b \<Rightarrow> Inr (b @ [0]))"

subsection \<open>\<open>_build_answers_section\<close> and \<open>_build_response\<close>\<close>

text \<open>
  \<open>socket.inet_aton\<close> is a function of the Python library: it returns the four
  packed bytes of an address literal or raises \<open>OSError\<close>. It is a parameter of
  the model (\<open>None\<close> is the exception).
\<close>

type_synonym inet_aton = "string \<Rightarrow> (byte \<times> byte \<times> byte \<times> byte) option"

text \<open>The \<open>for answer in answers\<close> loop, with the local \<open>section\<close> as accumulator.\<close>

fun build_answers_loop :: "inet_aton \<Rightarrow> bytes \<Rightarrow> bytes \<Rightarrow> string list \<Rightarrow> error + bytes" where
  "build_answers_loop aton qtype section [] = Inr section"
| "build_answers_loop aton qtype section (answer # answers) =
     (if qtype = [0x00, 0x01] then
        (case aton answer of
           None \<Rightarrow> Inl OSError
         | Some (a, b, c, d) \<Rightarrow>
             build_answers_loop aton qtype
               (section @ [0xc0, 0x0c, 0x00, 0x01, 0x00, 0x01, 0x00, 0x00, 0x00, 0x3c, 0x00, 0x04]
                  @ [a, b, c, d])
               answers)
      else if qtype = [0x00, 0x0c] then
        (case encode_name answer of
           Inl e \<Rightarrow> Inl e
         | Inr encoded \<Rightarrow>
             (case pack_H (length encoded) of
                Inl e \<Rightarrow> Inl e
              | Inr l \<Rightarrow>
                  build_answers_loop aton qtype
                    (section @ [0xc0, 0x0c, 0x00, 0x0c, 0x00, 0x01, 0x00, 0x00, 0x00, 0x3c]
                       @ l @ encoded)
                    answers))
      else build_answers_loop aton qtype section answers)"

definition build_answers_section :: "inet_aton \<Rightarrow> bytes \<Rightarrow> string list \<Rightarrow> error + bytes" where
  "build_answers_section aton qtype answers = build_answers_loop aton qtype [] answers"

definition build_response ::
  "inet_aton \<Rightarrow> bytes \<Rightarrow> string \<Rightarrow> bytes \<Rightarrow> string list \<Rightarrow> error + bytes" where
  "build_response aton tid query qtype answers =
     (case pack_H (length answers) of
        Inl e \<Rightarrow> Inl e
      | Inr ancount \<Rightarrow>
          (let header = tid @ [0x81, 0x80, 0x00, 0x01] @ ancount @ [0x00, 0x00, 0x00, 0x00] in
           case encode_name query of
             Inl e \<Rightarrow> Inl e
           | Inr qname \<Rightarrow>
               (let question = qname @ qtype @ [0x00, 0x01] in
                case build_answers_section aton qtype answers of
                  Inl e \<Rightarrow> Inl e
                | Inr answers_section \<Rightarrow> Inr (header @ question @ answers_section))))"

subsection \<open>Reading a built message\<close>

text \<open>
  The fields of the 12-byte header and of a resource record whose name is a
  2-byte pointer, read as big-endian numbers, as \<open>_cache_response\<close> reads them
  with \<open>struct.unpack\<close>.
\<close>

definition be_nat :: "bytes \<Rightarrow> nat" where
  "be_nat b = foldl (\<lambda>acc x. acc * 256 + unat x) 0 b"

definition hdr_id :: "bytes \<Rightarrow> bytes" where "hdr_id m = slice m 0 2"
definition hdr_flags :: "bytes \<Rightarrow> 16 word" where "hdr_flags m = of_nat (be_nat (slice m 2 4))"
definition hdr_qdcount :: "bytes \<Rightarrow> nat" where "hdr_qdcount m = be_nat (slice m 4 6)"
definition hdr_ancount :: "bytes \<Rightarrow> nat" where "hdr_ancount m = be_nat (slice m 6 8)"
definition hdr_nscount :: "bytes \<Rightarrow> nat" where "hdr_nscount m = be_nat (slice m 8 10)"
definition hdr_arcount :: "bytes \<Rightarrow> nat" where "hdr_arcount m = be_nat (slice m 10 12)"

text \<open>Flag bits of RFC 1035: QR, OPCODE, AA, TC, RD, RA, Z, RCODE.\<close>

definition flag_qr :: "16 word \<Rightarrow> bool" where "flag_qr f = (f AND 0x8000 \<noteq> 0)"
definition flag_opcode :: "16 word \<Rightarrow> 16 word" where "flag_opcode f = drop_bit 11 f AND 0xf"
definition flag_aa :: "16 word \<Rightarrow> bool" where "flag_aa f = (f AND 0x0400 \<noteq> 0)"
definition flag_tc :: "16 word \<Rightarrow> bool" where "flag_tc f = (f AND 0x0200 \<noteq> 0)"
definition flag_rd :: "16 word \<Rightarrow> bool" where "flag_rd f = (f AND 0x0100 \<noteq> 0)"
definition flag_ra :: "16 word \<Rightarrow> bool" where "flag_ra f = (f AND 0x0080 \<noteq> 0)"
definition flag_rcode :: "16 word \<Rightarrow> 16 word" where "flag_rcode f = f AND 0xf"

definition rr_name :: "bytes \<Rightarrow> bytes" where "rr_name r = slice r 0 2"
definition rr_type :: "bytes \<Rightarrow> nat" where "rr_type r = be_nat (slice r 2 4)"
definition rr_class :: "bytes \<Rightarrow> nat" where "rr_class r = be_nat (slice r 4 6)"
definition rr_ttl :: "bytes \<Rightarrow> nat" where "rr_ttl r = be_nat (slice r 6 10)"
definition rr_rdlength :: "bytes \<Rightarrow> nat" where "rr_rdlength r = be_nat (slice r 10 12)"
definition rr_rdata :: "bytes \<Rightarrow> bytes" where "rr_rdata r = drop 12 r"

section \<open>Record store (\<open>dns_cache.py\<close>)\<close>

text \<open>
  A Python \<open>dict\<close> keeps its keys in insertion order and the lookups return
  lists in that order, so a dict is an association list. \<open>d[k] = v\<close> replaces
  the value of a key in place or appends a new key; \<open>del d[k]\<close> removes it.
  The clock \<open>time.time()\<close> is read by the caller and passed to each operation.
\<close>

fun dict_set :: "('k \<times> 'v) list \<Rightarrow> 'k \<Rightarrow> 'v \<Rightarrow> ('k \<times> 'v) list" where
  "dict_set [] k v = [(k, v)]"
| "dict_set ((k', v') # d) k v =
     (if k' = k then (k, v) # d else (k', v') # dict_set d k v)"

definition dict_del :: "('k \<times> 'v) list \<Rightarrow> 'k \<Rightarrow> ('k \<times> 'v) list" where
  "dict_del d k = filter (\<lambda>kv. fst kv \<noteq> k) d"

definition dict_in :: "'k \<Rightarrow> ('k \<times> 'v) list \<Rightarrow> bool" where
  "dict_in k d = (map_of d k \<noteq> None)"

type_synonym entry = "real \<times> int"
type_synonym bucket = "(string \<times> entry) list"
type_synonym table = "(string \<times> bucket) list"

text \<open>
  \<open>d[key]\<close> where the code has just made sure that \<open>key\<close> is in \<open>d\<close>.
\<close>

definition bucket_of :: "table \<Rightarrow> string \<Rightarrow> bucket" where
  "bucket_of d key = (case map_of d key of Some b \<Rightarrow> b | None \<Rightarrow> [])"

record dns_cache =
  domain_to_ip :: table
  ip_to_domain :: table
  ns_records :: table

definition init_cache :: dns_cache where
  "init_cache = \<lparr>domain_to_ip = [], ip_to_domain = [], ns_records = []\<rparr>"

definition add_to_dict :: "table \<Rightarrow> string \<Rightarrow> string \<Rightarrow> real \<Rightarrow> int \<Rightarrow> table" where
  "add_to_dict target_dict key val expire_time ttl =
     (let d = (if \<not> dict_in key target_dict then dict_set target_dict key [] else target_dict)
      in dict_set d key (dict_set (bucket_of d key) val (expire_time, ttl)))"

text \<open>
  \<open>time.time() + ttl\<close>: the clock reading is a double and \<open>ttl\<close> an \<open>int\<close>. The
  \<open>int\<close> is converted to a double, with \<open>OverflowError\<close> when it is too large,
  and the sum is the IEEE 754 binary64 sum, rounded to the nearest double,
  ties to even. A double is the real number it stands for.
  \<open>float_round prec scale\<close> rounds a real number to \<open>prec\<close> significant bits on
  the grid of the multiples of \<open>2 ^ -scale\<close>; a double has 53 bits and the grid
  of its subnormal numbers is \<open>2 ^ -1074\<close>. A sum of magnitude \<open>2 ^ 1024\<close> or
  more stands for the infinite float (it is above every double, as \<open>inf\<close> is);
  it needs a clock reading of \<open>2 ^ 970\<close> or more.
\<close>

definition round_half_even :: "real \<Rightarrow> int" where
  "round_half_even q =
     (let f = \<lfloor>q\<rfloor>; d = q - of_int f
      in if d < 1 / 2 then f else if 1 / 2 < d then f + 1 else if even f then f else f + 1)"

definition float_round :: "nat \<Rightarrow> nat \<Rightarrow> real \<Rightarrow> real" where
  "float_round prec scale x =
     (let n = \<bar>x\<bar> * 2 ^ scale; shift = nat (bitlen \<lfloor>n\<rfloor> - int prec)
      in sgn x * (of_int (round_half_even (n / 2 ^ shift)) * 2 ^ shift / 2 ^ scale))"

definition double_round :: "real \<Rightarrow> real" where
  "double_round x = float_round 53 1074 x"

definition float_of_int :: "int \<Rightarrow> error + real" where
  "float_of_int n =
     (let x = double_round (of_int n)
      in if 2 ^ 1024 \<le> \<bar>x\<bar> then Inl OverflowError else Inr x)"

definition float_plus_int :: "real \<Rightarrow> int \<Rightarrow> error + real" where
  "float_plus_int x n =
     (case float_of_int n of
        Inl e \<Rightarrow> Inl e
      | Inr y \<Rightarrow> Inr (double_round (x + y)))"

definition add_record ::
  "dns_cache \<Rightarrow> real \<Rightarrow> string \<Rightarrow> string \<Rightarrow> int \<Rightarrow> error + dns_cache" where
  "add_record c now domain ip ttl =
     (case float_plus_int now ttl of
        Inl e \<Rightarrow> Inl e
      | Inr expire_time \<Rightarrow>
          Inr (c\<lparr>domain_to_ip := add_to_dict (domain_to_ip c) domain ip expire_time ttl,
                 ip_to_domain := add_to_dict (ip_to_domain c) ip domain expire_time ttl\<rparr>))"

definition add_ns_record ::
  "dns_cache \<Rightarrow> real \<Rightarrow> string \<Rightarrow> string \<Rightarrow> int \<Rightarrow> error + dns_cache" where
  "add_ns_record c now domain nameserver ttl =
     (case float_plus_int now ttl of
        Inl e \<Rightarrow> Inl e
      | Inr expire_time \<Rightarrow>
          Inr (c\<lparr>ns_records := add_to_dict (ns_records c) domain nameserver expire_time ttl\<rparr>))"

definition get_valid_entries :: "table \<Rightarrow> real \<Rightarrow> string \<Rightarrow> string list option" where
  "get_valid_entries source_dict current_time key =
     (if \<not> dict_in key source_dict then None
      else let valid_entries =
                 map fst (filter (\<lambda>(entry, (expire, _)). expire > current_time)
                            (bucket_of source_dict key))
           in if valid_entries \<noteq> [] then Some valid_entries else None)"

definition get_ip :: "dns_cache \<Rightarrow> real \<Rightarrow> string \<Rightarrow> string list option" where
  "get_ip c now domain = get_valid_entries (domain_to_ip c) now domain"

definition get_domain :: "dns_cache \<Rightarrow> real \<Rightarrow> string \<Rightarrow> string list option" where
  "get_domain c now ip = get_valid_entries (ip_to_domain c) now ip"

definition get_nameservers :: "dns_cache \<Rightarrow> real \<Rightarrow> string \<Rightarrow> string list option" where
  "get_nameservers c now domain = get_valid_entries (ns_records c) now domain"

text \<open>\<open>_cleanup_dict\<close>: the loop over \<open>list(target_dict.keys())\<close>.\<close>

definition cleanup_key :: "real \<Rightarrow> string \<Rightarrow> table \<Rightarrow> table" where
  "cleanup_key current_time key target_dict =
     (let d = dict_set target_dict key
                (filter (\<lambda>(k, v). fst v > current_time) (bucket_of target_dict key))
      in if bucket_of d key = [] then dict_del d key else d)"

definition cleanup_dict :: "table \<Rightarrow> real \<Rightarrow> table" where
  "cleanup_dict target_dict current_time =
     fold (cleanup_key current_time) (map fst target_dict) target_dict"

definition cleanup :: "dns_cache \<Rightarrow> real \<Rightarrow> dns_cache" where
  "cleanup c current_time =
     \<lparr>domain_to_ip = cleanup_dict (domain_to_ip c) current_time,
      ip_to_domain = cleanup_dict (ip_to_domain c) current_time,
      ns_records = cleanup_dict (ns_records c) current_time\<rparr>"

subsection \<open>Snapshots\<close>

text \<open>
  The JSON object written by \<open>save_to_file\<close> and read by \<open>load_from_file\<close>. On
  load each of the four fields may be missing (\<open>data.get\<close> with a default).
\<close>

record snapshot =
  snap_domain_to_ip :: "table option"
  snap_ip_to_domain :: "table option"
  snap_ns_records :: "table option"
  snap_timestamp :: "real option"

datatype file_content = FileNotFound | DecodeError | Loaded snapshot

definition prepare_for_serialization :: "table \<Rightarrow> table" where
  "prepare_for_serialization source_dict =
     map (\<lambda>(k, v). (k, map (\<lambda>(kk, vv). (kk, vv)) v)) source_dict"

definition save_to_file :: "dns_cache \<Rightarrow> real \<Rightarrow> snapshot" where
  "save_to_file c now =
     \<lparr>snap_domain_to_ip = Some (prepare_for_serialization (domain_to_ip c)),
      snap_ip_to_domain = Some (prepare_for_serialization (ip_to_domain c)),
      snap_ns_records = Some (prepare_for_serialization (ns_records c)),
      snap_timestamp = Some now\<rparr>"

text \<open>The inner and the outer loop of \<open>_restore_from_serialized\<close>.\<close>

fun restore_entries :: "table \<Rightarrow> string \<Rightarrow> real \<Rightarrow> real \<Rightarrow> bucket \<Rightarrow> table" where
  "restore_entries restored key time_passed current_time [] = restored"
| "restore_entries restored key time_passed current_time ((entry, (expire, ttl)) # entries) =
     (let new_expire = expire - time_passed in
      restore_entries
        (if new_expire > current_time
         then dict_set restored key (dict_set (bucket_of restored key) entry (new_expire, ttl))
         else restored)
        key time_passed current_time entries)"

fun restore_loop :: "table \<Rightarrow> real \<Rightarrow> real \<Rightarrow> table \<Rightarrow> table" where
  "restore_loop restored time_passed current_time [] = restored"
| "restore_loop restored time_passed current_time ((key, entries) # serialized) =
     restore_loop
       (restore_entries (dict_set restored key []) key time_passed current_time entries)
       time_passed current_time serialized"

definition restore_from_serialized :: "table \<Rightarrow> real \<Rightarrow> real \<Rightarrow> table" where
  "restore_from_serialized serialized time_passed current_time =
     restore_loop [] time_passed current_time serialized"

text \<open>
  \<open>load_from_file\<close> reads the clock once for \<open>load_time\<close>, and
  \<open>_restore_from_serialized\<close> reads it again in each of its three calls.
  A missing or undecodable file leaves the cache as it is.
\<close>

definition load_from_file ::
  "dns_cache \<Rightarrow> file_content \<Rightarrow> real \<Rightarrow> real \<Rightarrow> real \<Rightarrow> real \<Rightarrow> dns_cache" where
  "load_from_file c file load_time now1 now2 now3 =
     (case file of
        FileNotFound \<Rightarrow> c
      | DecodeError \<Rightarrow> c
      | Loaded data \<Rightarrow>
          (let time_passed =
                 load_time - (case snap_timestamp data of Some t \<Rightarrow> t | None \<Rightarrow> load_time)
           in \<lparr>domain_to_ip =
                  restore_from_serialized
                    (case snap_domain_to_ip data of Some d \<Rightarrow> d | None \<Rightarrow> []) time_passed now1,
                ip_to_domain =
                  restore_from_serialized
                    (case snap_ip_to_domain data of Some d \<Rightarrow> d | None \<Rightarrow> []) time_passed now2,
                ns_records =
                  restore_from_serialized
                    (case snap_ns_records data of Some d \<Rightarrow> d | None \<Rightarrow> []) time_passed now3\<rparr>))"

section \<open>Request dispatcher (\<open>dns_server.py\<close>)\<close>

text \<open>
  \<open>_get_cached_response\<close>: the lookup in the cache and the call of
  \<open>_build_response\<close>. Every exception is caught and gives \<open>None\<close>.
\<close>

definition get_cached_response ::
  "inet_aton \<Rightarrow> dns_cache \<Rightarrow> real \<Rightarrow> bytes \<Rightarrow> string \<Rightarrow> bytes \<Rightarrow> bytes option" where
  "get_cached_response aton c now tid query qtype =
     (if qtype = [0x00, 0x01] then
        (case get_ip c now query of
           None \<Rightarrow> None
         | Some ips \<Rightarrow>
             if ips \<noteq> [] then
               (case build_response aton tid query qtype ips of
                  Inl e \<Rightarrow> None
                | Inr m \<Rightarrow> Some m)
             else None)
      else if qtype = [0x00, 0x0c] then
        (case get_domain c now query of
           None \<Rightarrow> None
         | Some domains \<Rightarrow>
             if domains \<noteq> [] then
               (case build_response aton tid query qtype domains of
                  Inl e \<Rightarrow> None
                | Inr m \<Rightarrow> Some m)
             else None)
      else None)"

section \<open>Predicates of the statements\<close>

text \<open>The bucket invariant of the data model: no key of a table has an empty bucket.\<close>

definition no_empty_bucket :: "table \<Rightarrow> bool" where
  "no_empty_bucket t = list_all (\<lambda>kb. snd kb \<noteq> []) t"

definition cache_inv :: "dns_cache \<Rightarrow> bool" where
  "cache_inv c =
     (no_empty_bucket (domain_to_ip c) \<and> no_empty_bucket (ip_to_domain c)
      \<and> no_empty_bucket (ns_records c))"

text \<open>An association list represents a dict when no key occurs twice.\<close>

definition is_dict :: "('k \<times> 'v) list \<Rightarrow> bool" where
  "is_dict d = distinct (map fst d)"

text \<open>
  A table as a dict of dicts, and \<open>restore\<close> in the words of the specification: each
  entry gets the expiry \<open>expiresAt - (now - timestamp)\<close>, is kept if and only if that
  is greater than \<open>now\<close>, and keeps its ttl.
\<close>

definition wf_table :: "table \<Rightarrow> bool" where
  "wf_table t = (is_dict t \<and> list_all (\<lambda>kb. is_dict (snd kb)) t)"

definition restore_spec :: "table \<Rightarrow> real \<Rightarrow> real \<Rightarrow> table" where
  "restore_spec t ts now =
     map (\<lambda>(key, entries).
            (key, map (\<lambda>(v, (expiresAt, ttl)). (v, (expiresAt - (now - ts), ttl)))
                    (filter (\<lambda>(v, (expiresAt, ttl)). expiresAt - (now - ts) > now) entries)))
         t"

text \<open>
  \<open>sweep\<close> in the words of the specification: every entry whose expiry is not
  after \<open>now\<close> is removed, and then every key that is left with no entry.
\<close>

definition sweep_spec :: "table \<Rightarrow> real \<Rightarrow> table" where
  "sweep_spec t now =
     filter (\<lambda>kb. snd kb \<noteq> [])
       (map (\<lambda>(key, entries). (key, filter (\<lambda>(v, e). fst e > now) entries)) t)"

subsection \<open>Predicates of the codec statements\<close>

text \<open>
  One run of the \<open>while True\<close> loop of \<open>_parse_name\<close>, without the recursive call:
  it ends with an exception, at the zero byte, or at a compression pointer, of
  which it gives the target. The offset grows in every round, so the run ends.
\<close>

datatype run_end =
    RunError error
  | RunEnd "string list" nat
  | RunPointer "string list" nat nat

function label_run :: "bytes \<Rightarrow> nat \<Rightarrow> string list \<Rightarrow> run_end" where
  "label_run data offset name =
     (if length data \<le> offset then RunError IndexError
      else let len = data ! offset in
        if len = 0 then RunEnd name (offset + 1)
        else if len AND 0xc0 = 0xc0 then
          (case unpack_H (slice data offset (offset + 2)) of
             Inl e \<Rightarrow> RunError e
           | Inr w \<Rightarrow> RunPointer name (unat (w AND 0x3fff)) (offset + 2))
        else
          (case decode_ascii (slice data (offset + 1) (offset + 1 + unat len)) of
             Inl e \<Rightarrow> RunError e
           | Inr label \<Rightarrow> label_run data (offset + 1 + unat len) (name @ [label])))"
  by pat_completeness auto
termination
  by (relation "measure (\<lambda>(data, offset, name). length data - offset)") auto

declare label_run.simps [simp del]

text \<open>The target of the pointer that ends a run, if the run ends in a pointer.\<close>

definition run_target :: "bytes \<Rightarrow> nat \<Rightarrow> nat option" where
  "run_target data start =
     (case label_run data start [] of RunPointer _ p _ \<Rightarrow> Some p | _ \<Rightarrow> None)"

text \<open>
  The chain of pointers from a start offset ends within \<open>n\<close> runs when one of
  the first \<open>n\<close> runs ends without a pointer.
\<close>

fun chain_ends :: "nat \<Rightarrow> bytes \<Rightarrow> nat \<Rightarrow> bool" where
  "chain_ends 0 data start = False"
| "chain_ends (Suc n) data start =
     (case run_target data start of None \<Rightarrow> True | Some p \<Rightarrow> chain_ends n data p)"

text \<open>
  The pointers of a message descend when every run that ends in a pointer
  targets an offset before the start of the run.
\<close>

definition pointers_descend :: "bytes \<Rightarrow> bool" where
  "pointers_descend data =
     list_all (\<lambda>start. case run_target data start of Some p \<Rightarrow> p < start | None \<Rightarrow> True)
       [0..<length data]"

text \<open>
  A label that \<open>_encode_name\<close> accepts, and a label that the wire format allows.
\<close>

definition label_ok :: "string \<Rightarrow> bool" where
  "label_ok part = (length part \<le> 255 \<and> list_all (\<lambda>c. (of_char c :: nat) < 128) part)"

definition wire_label :: "string \<Rightarrow> bool" where
  "wire_label part =
     (part \<noteq> [] \<and> length part \<le> 63 \<and> list_all (\<lambda>c. (of_char c :: nat) < 128) part)"

text \<open>
  An answer record of a built message: the name is the pointer to offset 12, the
  type is the query type, the class is IN, the ttl is 60 and the rdata has the
  length that the record announces.
\<close>

definition answer_record_ok :: "bytes \<Rightarrow> bytes \<Rightarrow> bool" where
  "answer_record_ok qtype r =
     (rr_name r = [0xc0, 0x0c] \<and> rr_type r = be_nat qtype \<and> rr_class r = 1
      \<and> rr_ttl r = 60 \<and> rr_rdlength r = length (rr_rdata r))"

text \<open>Sample inputs of the closed statements.\<close>

definition rounded_cache :: dns_cache where
  "rounded_cache =
     \<lparr>domain_to_ip = [(''a'', [(''1.2.3.4'', (3909483647, 2147483647))])],
      ip_to_domain = [(''1.2.3.4'', [(''a'', (3909483647, 2147483647))])],
      ns_records = []\<rparr>"

definition short_lived_cache :: dns_cache where
  "short_lived_cache =
     \<lparr>domain_to_ip = [(''a'', [(''1.2.3.4'', (10, 10))])],
      ip_to_domain = [(''1.2.3.4'', [(''a'', (10, 10))])],
      ns_records = []\<rparr>"

definition aton_example :: inet_aton where
  "aton_example s = (if s = ''93.184.216.34'' then Some (93, 184, 216, 34) else None)"

definition sample_a_message :: bytes where
  "sample_a_message =
     [0x12, 0x34, 0x81, 0x80, 0, 1, 0, 1, 0, 0, 0, 0,
      1, 0x61, 0, 0, 1, 0, 1,
      0xc0, 0x0c, 0, 1, 0, 1, 0, 0, 0, 0x3c, 0, 4, 93, 184, 216, 34]"

definition sample_ptr_message :: bytes where
  "sample_ptr_message =
     [0x12, 0x34, 0x81, 0x80, 0, 1, 0, 1, 0, 0, 0, 0,
      1, 0x61, 0, 0, 0x0c, 0, 1,
      0xc0, 0x0c, 0, 0x0c, 0, 1, 0, 0, 0, 0x3c, 0, 3, 1, 0x62, 0]"

section \<open>Properties of the record store\<close>

subsection \<open>Dict assignment\<close>

lemma map_of_dict_set_same: "map_of (dict_set d k v) k = Some v"
  by (induction d) auto

lemma map_of_dict_set_other: "k' \<noteq> k \<Longrightarrow> map_of (dict_set d k v) k' = map_of d k'"
  by (induction d) auto

lemma set_dict_set_mem: "(k, v) \<in> set (dict_set d k v)"
  by (induction d) auto

lemma set_dict_set_distinct:
  "is_dict d \<Longrightarrow> set (dict_set d k v) = insert (k, v) {p \<in> set d. fst p \<noteq> k}"
  unfolding is_dict_def
proof (induction d)
  case Nil
  then show ?case by simp
next
  case (Cons p d)
  then show ?case by (cases p) (force split: if_splits)
qed

lemma keys_dict_set:
  "map fst (dict_set d k v) = (if k \<in> fst ` set d then map fst d else map fst d @ [k])"
  by (induction d) (auto simp: rev_image_eqI)

lemma is_dict_dict_set: "is_dict d \<Longrightarrow> is_dict (dict_set d k v)"
  by (simp add: is_dict_def keys_dict_set)

subsection \<open>Insert, then look up\<close>

lemma bucket_after_add:
  "bucket_of (add_to_dict d key v e ttl) key = dict_set (bucket_of d key) v (e, ttl)"
  by (auto simp: add_to_dict_def bucket_of_def dict_in_def map_of_dict_set_same Let_def)

lemma key_after_add: "dict_in key (add_to_dict d key v e ttl)"
  by (simp add: add_to_dict_def dict_in_def map_of_dict_set_same Let_def)

lemma add_then_get_present:
  assumes "now < e"
  shows "\<exists>vs. get_valid_entries (add_to_dict d key v e ttl) now key = Some vs \<and> v \<in> set vs"
proof -
  let ?b = "dict_set (bucket_of d key) v (e, ttl)"
  have "(v, (e, ttl)) \<in> set (filter (\<lambda>(entry, (expire, _)). expire > now) ?b)"
    using assms by (simp add: set_dict_set_mem)
  then have mem: "v \<in> set (map fst (filter (\<lambda>(entry, (expire, _)). expire > now) ?b))"
    by force
  then have "map fst (filter (\<lambda>(entry, (expire, _)). expire > now) ?b) \<noteq> []"
    by force
  with mem show ?thesis
    by (simp add: get_valid_entries_def key_after_add bucket_after_add Let_def)
qed

lemma add_then_get_expired:
  assumes "is_dict (bucket_of d key)" and "e \<le> now"
    and "get_valid_entries (add_to_dict d key v e ttl) now key = Some vs"
  shows "v \<notin> set vs"
  using assms
  by (auto simp: get_valid_entries_def key_after_add bucket_after_add Let_def
      set_dict_set_distinct split: if_splits)

subsection \<open>The double sum\<close>

lemma round_half_even_int: "round_half_even (of_int k) = k"
  by (simp add: round_half_even_def)

lemma bitlen_range:
  assumes "2 ^ k \<le> m" and "m < 2 ^ Suc k"
  shows "bitlen m = int k + 1"
proof -
  have mp: "0 < m" using assms(1) by (smt (verit) zero_less_power)
  from bitlen_bounds [OF mp] have b: "2 ^ nat (bitlen m - 1) \<le> m" "m < 2 ^ nat (bitlen m)"
    by simp_all
  have h1: "(2::int) ^ nat (bitlen m - 1) < 2 ^ Suc k" using b(1) assms(2) by linarith
  have 1: "nat (bitlen m - 1) < Suc k"
    by (rule power_less_imp_less_exp [of 2, OF _ h1]) simp
  have h2: "(2::int) ^ k < 2 ^ nat (bitlen m)" using b(2) assms(1) by linarith
  have 2: "k < nat (bitlen m)"
    by (rule power_less_imp_less_exp [of 2, OF _ h2]) simp
  from 1 2 show ?thesis by linarith
qed

lemma float_round_range:
  assumes "2 ^ k \<le> x" and "x < 2 ^ Suc k" and "prec \<le> Suc (k + scale)"
  shows "float_round prec scale x =
           of_int (round_half_even (x * 2 ^ scale / 2 ^ (Suc (k + scale) - prec)))
             * 2 ^ (Suc (k + scale) - prec) / 2 ^ scale"
proof -
  have xp: "0 < x" using assms(1) by (smt (verit) zero_less_power)
  let ?n = "x * 2 ^ scale"
  have lo: "(2::int) ^ (k + scale) \<le> \<lfloor>?n\<rfloor>"
  proof -
    have "(2::real) ^ (k + scale) \<le> ?n" using assms(1) by (simp add: power_add)
    then have "of_int ((2::int) ^ (k + scale)) \<le> ?n" by simp
    then show ?thesis by (simp only: le_floor_iff)
  qed
  have hi: "\<lfloor>?n\<rfloor> < (2::int) ^ Suc (k + scale)"
  proof -
    have "?n < (2::real) ^ Suc (k + scale)" using assms(2) by (simp add: power_add)
    then have "?n < of_int ((2::int) ^ Suc (k + scale))" by simp
    then show ?thesis by (simp only: floor_less_iff)
  qed
  have bl: "bitlen \<lfloor>?n\<rfloor> = int (k + scale) + 1" by (rule bitlen_range [OF lo hi])
  have sh: "nat (bitlen \<lfloor>?n\<rfloor> - int prec) = Suc (k + scale) - prec"
    using assms(3) by (simp add: bl)
  show ?thesis
    using xp by (simp add: float_round_def Let_def sh)
qed

lemma double_round_range:
  assumes "2 ^ k \<le> x" and "x < 2 ^ Suc k"
  shows "double_round x = of_int (round_half_even (x * 2 ^ 52 / 2 ^ k)) * 2 ^ k / 2 ^ 52"
proof -
  have s: "Suc (k + 1074) - 53 = k + 1022" by simp
  have a: "1074 = 52 + (1022::nat)" by simp
  have q: "x * 2 ^ 1074 / 2 ^ (k + 1022) = x * 2 ^ 52 / 2 ^ k"
    by (subst a) (simp only: power_add, simp)
  have r: "y * 2 ^ (k + 1022) / 2 ^ 1074 = y * 2 ^ k / 2 ^ 52" for y :: real
    by (subst a) (simp only: power_add, simp)
  have "double_round x = of_int (round_half_even (x * 2 ^ 1074 / 2 ^ (Suc (k + 1074) - 53)))
             * 2 ^ (Suc (k + 1074) - 53) / 2 ^ 1074"
    unfolding double_round_def by (rule float_round_range [OF assms]) simp
  then show ?thesis by (simp only: s q r)
qed

lemma float_round_int:
  assumes "\<bar>n\<bar> < 2 ^ prec" and "prec \<le> Suc scale"
  shows "float_round prec scale (of_int n) = of_int n"
proof (cases "n = 0")
  case True
  then show ?thesis by (simp add: float_round_def)
next
  case False
  then have ap: "0 < \<bar>n\<bar>" by simp
  let ?N = "\<bar>n\<bar> * 2 ^ scale"
  have fl: "\<lfloor>\<bar>real_of_int n\<bar> * 2 ^ scale\<rfloor> = ?N"
  proof -
    have "\<bar>real_of_int n\<bar> * 2 ^ scale = of_int ?N" by simp
    then show ?thesis by (simp only: floor_of_int)
  qed
  have bl: "bitlen ?N = bitlen \<bar>n\<bar> + int scale" using ap by (rule bitlen_pow2)
  have b1: "1 \<le> bitlen \<bar>n\<bar>" using ap by (simp add: bitlen_alt_def)
  have b2: "bitlen \<bar>n\<bar> \<le> int prec"
  proof (rule ccontr)
    assume "\<not> bitlen \<bar>n\<bar> \<le> int prec"
    then have "prec \<le> nat (bitlen \<bar>n\<bar> - 1)" by linarith
    then have "(2::int) ^ prec \<le> 2 ^ nat (bitlen \<bar>n\<bar> - 1)" by (simp add: power_increasing)
    also have "\<dots> \<le> \<bar>n\<bar>" using bitlen_bounds [OF ap] by simp
    finally show False using assms(1) by simp
  qed
  define s where "s = nat (bitlen \<bar>n\<bar> + int scale - int prec)"
  have sle: "s \<le> scale" using b2 by (simp add: s_def)
  then obtain r where r: "scale = s + r" using le_Suc_ex by blast
  have q: "\<bar>real_of_int n\<bar> * 2 ^ scale / 2 ^ s = of_int (\<bar>n\<bar> * 2 ^ r)"
    by (simp add: r power_add)
  have "float_round prec scale (of_int n)
          = sgn (real_of_int n) * (of_int (round_half_even (\<bar>real_of_int n\<bar> * 2 ^ scale / 2 ^ s))
              * 2 ^ s / 2 ^ scale)"
    by (simp add: float_round_def Let_def fl bl s_def)
  also have "\<dots> = sgn (real_of_int n) * (of_int (\<bar>n\<bar> * 2 ^ r) * 2 ^ s / 2 ^ scale)"
    by (simp only: q round_half_even_int)
  also have "\<dots> = sgn (real_of_int n) * \<bar>real_of_int n\<bar>"
    by (simp add: r power_add)
  also have "\<dots> = of_int n" by (simp add: sgn_if)
  finally show ?thesis .
qed

lemma double_round_int: "\<bar>n\<bar> < 2 ^ 53 \<Longrightarrow> double_round (of_int n) = of_int n"
  unfolding double_round_def by (rule float_round_int) simp_all

lemma float_of_int_small: "\<bar>n\<bar> < 2 ^ 53 \<Longrightarrow> float_of_int n = Inr (of_int n)"
proof -
  assume a: "\<bar>n\<bar> < 2 ^ 53"
  then have "\<bar>real_of_int n\<bar> < 2 ^ 53" by (metis of_int_abs of_int_less_numeral_power_cancel_iff)
  moreover have "(2::real) ^ 53 \<le> 2 ^ 1024" by (rule power_increasing) simp_all
  ultimately have "\<not> 2 ^ 1024 \<le> \<bar>real_of_int n\<bar>" by linarith
  then show ?thesis
    unfolding float_of_int_def double_round_int [OF a] Let_def by (rule if_not_P)
qed

lemma float_plus_int_small:
  "\<bar>n\<bar> < 2 ^ 53 \<Longrightarrow> float_plus_int x n = Inr (double_round (x + of_int n))"
  by (simp add: float_plus_int_def float_of_int_small)

lemma double_round_rounds_below:
  "double_round (3909483647 + 1 / 4194304) = 3909483647"
proof -
  have "(2::real) ^ 31 \<le> 3909483647 + 1 / 4194304"
    "(3909483647 + 1 / 4194304 :: real) < 2 ^ Suc 31"
    by simp_all
  from double_round_range [OF this] show ?thesis
    by (simp add: round_half_even_def)
qed

text \<open>
  C6. An entry inserted with ttl \<open>t\<close> at time \<open>t0\<close> is stored with the expiry that
  \<open>time.time() + ttl\<close> computes: the double sum, which for a ttl below \<open>2 ^ 53\<close>
  in magnitude is \<open>t0 + t\<close> rounded to a double. A lookup of its key at any time
  before the stored expiry returns a list that contains the value; a lookup at
  or after the stored expiry returns "not found" or a list without the value.
  This holds for the forward and the reverse table of \<open>add_record\<close> and for the
  nameserver table, the bucket of the key being a dict before the insertion.
\<close>

theorem ttl_window:
  assumes "is_dict (bucket_of (domain_to_ip c) domain)"
    and "is_dict (bucket_of (ip_to_domain c) ip)"
    and "is_dict (bucket_of (ns_records c) domain)"
    and "float_plus_int t0 t = Inr expire"
  shows "\<exists>c1 c2. add_record c t0 domain ip t = Inr c1
          \<and> add_ns_record c t0 domain ip t = Inr c2
          \<and> (\<bar>t\<bar> < 2 ^ 53 \<longrightarrow> expire = double_round (t0 + real_of_int t))
          \<and> (now < expire \<longrightarrow>
                (\<exists>vs. get_ip c1 now domain = Some vs \<and> ip \<in> set vs)
              \<and> (\<exists>vs. get_domain c1 now ip = Some vs \<and> domain \<in> set vs)
              \<and> (\<exists>vs. get_nameservers c2 now domain = Some vs \<and> ip \<in> set vs))
          \<and> (expire \<le> now \<longrightarrow>
                (\<forall>vs. get_ip c1 now domain = Some vs \<longrightarrow> ip \<notin> set vs)
              \<and> (\<forall>vs. get_domain c1 now ip = Some vs \<longrightarrow> domain \<notin> set vs)
              \<and> (\<forall>vs. get_nameservers c2 now domain = Some vs \<longrightarrow> ip \<notin> set vs))"
proof -
  let ?c1 = "c\<lparr>domain_to_ip := add_to_dict (domain_to_ip c) domain ip expire t,
                ip_to_domain := add_to_dict (ip_to_domain c) ip domain expire t\<rparr>"
  let ?c2 = "c\<lparr>ns_records := add_to_dict (ns_records c) domain ip expire t\<rparr>"
  have a: "add_record c t0 domain ip t = Inr ?c1" "add_ns_record c t0 domain ip t = Inr ?c2"
    by (simp_all add: add_record_def add_ns_record_def assms(4))
  have e: "\<bar>t\<bar> < 2 ^ 53 \<longrightarrow> expire = double_round (t0 + real_of_int t)"
    using assms(4) float_plus_int_small [of t t0] by auto
  have p: "now < expire \<longrightarrow>
                (\<exists>vs. get_ip ?c1 now domain = Some vs \<and> ip \<in> set vs)
              \<and> (\<exists>vs. get_domain ?c1 now ip = Some vs \<and> domain \<in> set vs)
              \<and> (\<exists>vs. get_nameservers ?c2 now domain = Some vs \<and> ip \<in> set vs)"
    using add_then_get_present
    by (simp add: get_ip_def get_domain_def get_nameservers_def)
  have q: "expire \<le> now \<longrightarrow>
                (\<forall>vs. get_ip ?c1 now domain = Some vs \<longrightarrow> ip \<notin> set vs)
              \<and> (\<forall>vs. get_domain ?c1 now ip = Some vs \<longrightarrow> domain \<notin> set vs)
              \<and> (\<forall>vs. get_nameservers ?c2 now domain = Some vs \<longrightarrow> ip \<notin> set vs)"
    using assms(1-3) add_then_get_expired
    by (simp add: get_ip_def get_domain_def get_nameservers_def)
  from a e p q show ?thesis by blast
qed

theorem ttl_window_witness:
  "is_dict (bucket_of (domain_to_ip init_cache) ''example.com'')
   \<and> float_plus_int 100 60 = Inr 160
   \<and> (\<exists>c1. add_record init_cache 100 ''example.com'' ''93.184.216.34'' 60 = Inr c1
         \<and> (\<exists>vs. get_ip c1 159 ''example.com'' = Some vs \<and> ''93.184.216.34'' \<in> set vs)
         \<and> get_ip c1 160 ''example.com'' = None)"
proof -
  have d: "is_dict (bucket_of (domain_to_ip init_cache) ''example.com'')"
    "is_dict (bucket_of (ip_to_domain init_cache) ''93.184.216.34'')"
    "is_dict (bucket_of (ns_records init_cache) ''example.com'')"
    by (simp_all add: is_dict_def bucket_of_def init_cache_def)
  have e: "float_plus_int 100 60 = Inr 160"
    using float_plus_int_small [of 60 100] double_round_int [of 160] by simp
  from ttl_window [OF d e, of 159] obtain c1 where
    c1: "add_record init_cache 100 ''example.com'' ''93.184.216.34'' 60 = Inr c1"
    and v: "\<exists>vs. get_ip c1 159 ''example.com'' = Some vs \<and> ''93.184.216.34'' \<in> set vs"
    by auto
  from ttl_window [OF d e, of 160] c1 have
    w: "\<forall>vs. get_ip c1 160 ''example.com'' = Some vs \<longrightarrow> ''93.184.216.34'' \<notin> set vs"
    by auto
  have "c1 = init_cache\<lparr>domain_to_ip :=
              add_to_dict (domain_to_ip init_cache) ''example.com'' ''93.184.216.34'' 160 60,
            ip_to_domain :=
              add_to_dict (ip_to_domain init_cache) ''93.184.216.34'' ''example.com'' 160 60\<rparr>"
    using c1 by (simp add: add_record_def e)
  then have n: "get_ip c1 160 ''example.com'' = None"
    by (simp add: get_ip_def init_cache_def add_to_dict_def dict_in_def bucket_of_def
        get_valid_entries_def Let_def)
  from d(1) e c1 v n show ?thesis by blast
qed

text \<open>
  An entry inserted at \<open>t0 = 1762000000 + 2 ^ -22\<close> with the ttl \<open>2 ^ 31 - 1\<close> gets
  the expiry \<open>3909483647\<close>: the exact sum lies halfway between two doubles and
  is rounded down. The query time \<open>3909483647\<close> lies in \<open>[t0, t0 + t)\<close>, and the
  lookup at that time returns "not found".
\<close>

theorem ttl_window_rounded_below:
  "add_record init_cache (1762000000 + 1 / 4194304) ''a'' ''1.2.3.4'' 2147483647
     = Inr rounded_cache
   \<and> (1762000000 + 1 / 4194304 :: real) \<le> 3909483647
   \<and> (3909483647 :: real) < 1762000000 + 1 / 4194304 + real_of_int 2147483647
   \<and> get_ip rounded_cache 3909483647 ''a'' = None"
proof -
  have "float_plus_int (1762000000 + 1 / 4194304) 2147483647 = Inr 3909483647"
    using float_plus_int_small [of 2147483647 "1762000000 + 1 / 4194304"]
      double_round_rounds_below
    by simp
  then have "add_record init_cache (1762000000 + 1 / 4194304) ''a'' ''1.2.3.4'' 2147483647
     = Inr rounded_cache"
    by (simp add: add_record_def init_cache_def add_to_dict_def dict_in_def bucket_of_def
        rounded_cache_def Let_def)
  moreover have "get_ip rounded_cache 3909483647 ''a'' = None"
    by (simp add: get_ip_def rounded_cache_def dict_in_def bucket_of_def
        get_valid_entries_def Let_def)
  ultimately show ?thesis by simp
qed

text \<open>
  C10. In every state of the tables, also one in which a key has an empty
  bucket, a lookup returns "not found" or a non-empty list, never the empty list.
\<close>

theorem lookup_never_empty:
  "get_ip c now k \<noteq> Some [] \<and> get_domain c now k \<noteq> Some []
   \<and> get_nameservers c now k \<noteq> Some []"
  by (simp add: get_ip_def get_domain_def get_nameservers_def get_valid_entries_def Let_def)

theorem lookup_never_empty_witness:
  "get_ip \<lparr>domain_to_ip = [(''a'', [])], ip_to_domain = [], ns_records = []\<rparr> 0 ''a''
     \<noteq> Some []"
  using lookup_never_empty
    [of "\<lparr>domain_to_ip = [(''a'', [])], ip_to_domain = [], ns_records = []\<rparr>" 0 "''a''"]
  by simp

text \<open>
  C3. The bucket invariant does not hold in every reachable state: an entry
  inserted at time 0 with ttl 10 (the cache is then \<open>short_lived_cache\<close>), saved at
  time 5 and loaded at time 20 is dropped by the load, and its key stays in
  the table with an empty bucket.
\<close>

theorem restore_leaves_empty_bucket:
  "add_record init_cache 0 ''a'' ''1.2.3.4'' 10 = Inr short_lived_cache
   \<and> load_from_file init_cache (Loaded (save_to_file short_lived_cache 5)) 20 20 20 20
     = \<lparr>domain_to_ip = [(''a'', [])], ip_to_domain = [(''1.2.3.4'', [])], ns_records = []\<rparr>
   \<and> \<not> cache_inv
         (load_from_file init_cache (Loaded (save_to_file short_lived_cache 5)) 20 20 20 20)"
proof -
  have "float_plus_int 0 10 = Inr 10"
    using float_plus_int_small [of 10 0] double_round_int [of 10] by simp
  then have "add_record init_cache 0 ''a'' ''1.2.3.4'' 10 = Inr short_lived_cache"
    by (simp add: add_record_def init_cache_def add_to_dict_def dict_in_def bucket_of_def
        short_lived_cache_def Let_def)
  moreover have
    "load_from_file init_cache (Loaded (save_to_file short_lived_cache 5)) 20 20 20 20
     = \<lparr>domain_to_ip = [(''a'', [])], ip_to_domain = [(''1.2.3.4'', [])], ns_records = []\<rparr>"
    by (simp add: load_from_file_def save_to_file_def short_lived_cache_def
        prepare_for_serialization_def dict_in_def bucket_of_def
        restore_from_serialized_def Let_def)
  ultimately show ?thesis
    by (simp add: cache_inv_def no_empty_bucket_def)
qed

text \<open>
  The sweep removes the bucket that the load keeps; the lemmas on sweeping below
  show that every insertion and every sweep keeps the invariant.
\<close>

lemma cleanup_removes_emptied_bucket:
  "cleanup_dict [(''a'', [(''1.2.3.4'', (10, 10))])] 20 = []"
  by (simp add: cleanup_dict_def cleanup_key_def bucket_of_def dict_del_def)

subsection \<open>Restoring a snapshot\<close>

lemma dict_set_fresh: "k \<notin> fst ` set d \<Longrightarrow> dict_set d k v = d @ [(k, v)]"
  by (induction d) auto

lemma dict_set_last: "k \<notin> fst ` set pre \<Longrightarrow> dict_set (pre @ [(k, b)]) k v = pre @ [(k, v)]"
  by (induction pre) auto

lemma bucket_of_last: "k \<notin> fst ` set pre \<Longrightarrow> bucket_of (pre @ [(k, b)]) k = b"
  by (induction pre) (auto simp: bucket_of_def)

lemma restore_entries_append:
  assumes "key \<notin> fst ` set pre" and "distinct (map fst b @ map fst es)"
  shows "restore_entries (pre @ [(key, b)]) key tp ct es =
         pre @ [(key, b @ map (\<lambda>(v, (e, ttl)). (v, (e - tp, ttl)))
                          (filter (\<lambda>(v, (e, ttl)). e - tp > ct) es))]"
  using assms
proof (induction es arbitrary: b)
  case Nil
  then show ?case by simp
next
  case (Cons x es)
  obtain v e ttl where x: "x = (v, (e, ttl))" by (cases x) auto
  show ?case
  proof (cases "e - tp > ct")
    case True
    have fresh: "v \<notin> fst ` set b" using Cons.prems(2) x by auto
    have d: "distinct (map fst (b @ [(v, (e - tp, ttl))]) @ map fst es)"
      using Cons.prems(2) x by auto
    show ?thesis
      using True Cons.IH [OF Cons.prems(1) d] Cons.prems(1)
      by (simp add: x Let_def bucket_of_last dict_set_last dict_set_fresh [OF fresh])
  next
    case False
    have d: "distinct (map fst b @ map fst es)" using Cons.prems(2) by auto
    show ?thesis
      using False Cons.IH [OF Cons.prems(1) d] by (simp add: x Let_def)
  qed
qed

lemma restore_loop_append:
  assumes "distinct (map fst acc @ map fst s)" and "list_all (\<lambda>kb. is_dict (snd kb)) s"
  shows "restore_loop acc tp ct s =
         acc @ map (\<lambda>(key, entries).
            (key, map (\<lambda>(v, (e, ttl)). (v, (e - tp, ttl)))
                    (filter (\<lambda>(v, (e, ttl)). e - tp > ct) entries))) s"
  using assms
proof (induction s arbitrary: acc)
  case Nil
  then show ?case by simp
next
  case (Cons x s)
  obtain key entries where x: "x = (key, entries)" by (cases x) auto
  have fresh: "key \<notin> fst ` set acc" using Cons.prems(1) x by auto
  have de: "distinct (map fst ([]::bucket) @ map fst entries)"
    using Cons.prems(2) x by (simp add: is_dict_def)
  let ?acc' = "acc @ [(key, map (\<lambda>(v, (e, ttl)). (v, (e - tp, ttl)))
                          (filter (\<lambda>(v, (e, ttl)). e - tp > ct) entries))]"
  have step: "restore_entries (dict_set acc key []) key tp ct entries = ?acc'"
    using restore_entries_append [OF fresh de, of tp ct] by (simp add: dict_set_fresh [OF fresh])
  have d: "distinct (map fst ?acc' @ map fst s)" using Cons.prems(1) x by auto
  have l: "list_all (\<lambda>kb. is_dict (snd kb)) s" using Cons.prems(2) by simp
  show ?case
    using Cons.IH [OF d l] by (simp add: x step)
qed

lemma restore_from_serialized_spec:
  assumes "wf_table s"
  shows "restore_from_serialized s (now - ts) now = restore_spec s ts now"
  using assms restore_loop_append [of "[]" s "now - ts" now]
  by (simp add: restore_from_serialized_def restore_spec_def wf_table_def is_dict_def)



subsection \<open>Sweeping\<close>

lemma bucket_of_mid: "k \<notin> fst ` set pre \<Longrightarrow> bucket_of (pre @ (k, b) # post) k = b"
  by (induction pre) (auto simp: bucket_of_def)

lemma dict_set_mid:
  "k \<notin> fst ` set pre \<Longrightarrow> dict_set (pre @ (k, b) # post) k v = pre @ (k, v) # post"
  by (induction pre) auto

lemma filter_other_keys: "k \<notin> fst ` set xs \<Longrightarrow> filter (\<lambda>kv. fst kv \<noteq> k) xs = xs"
  by (induction xs) auto

lemma dict_del_mid:
  "k \<notin> fst ` set pre \<Longrightarrow> k \<notin> fst ` set post \<Longrightarrow> dict_del (pre @ (k, b) # post) k = pre @ post"
  by (simp add: dict_del_def filter_other_keys)

lemma cleanup_fold:
  assumes "distinct (map fst pre @ map fst todo)"
  shows "fold (cleanup_key now) (map fst todo) (pre @ todo) = pre @ sweep_spec todo now"
  using assms
proof (induction todo arbitrary: pre)
  case Nil
  then show ?case by (simp add: sweep_spec_def)
next
  case (Cons x todo)
  obtain k b where x: "x = (k, b)" by (cases x) auto
  have fresh: "k \<notin> fst ` set pre" "k \<notin> fst ` set todo"
    using Cons.prems x by auto
  let ?b' = "filter (\<lambda>(v, e). fst e > now) b"
  have step: "cleanup_key now k (pre @ (k, b) # todo)
                = (if ?b' = [] then pre @ todo else (pre @ [(k, ?b')]) @ todo)"
    using fresh
    by (simp add: cleanup_key_def Let_def bucket_of_mid dict_set_mid dict_del_mid
        case_prod_unfold)
  show ?case
  proof (cases "?b' = []")
    case True
    have d: "distinct (map fst pre @ map fst todo)" using Cons.prems by auto
    show ?thesis
      using Cons.IH [OF d] True by (simp add: x step sweep_spec_def)
  next
    case False
    have d: "distinct (map fst (pre @ [(k, ?b')]) @ map fst todo)"
      using Cons.prems x by auto
    show ?thesis
      using Cons.IH [OF d] False by (simp add: x step sweep_spec_def)
  qed
qed

lemma cleanup_dict_sweep:
  assumes "is_dict t"
  shows "cleanup_dict t now = sweep_spec t now"
  using assms cleanup_fold [of "[]" t now] by (simp add: cleanup_dict_def is_dict_def)

lemma sweep_no_empty_bucket: "is_dict t \<Longrightarrow> no_empty_bucket (cleanup_dict t now)"
  by (simp add: cleanup_dict_sweep sweep_spec_def no_empty_bucket_def list_all_iff)

lemma sweep_no_expired:
  assumes "is_dict t" and "(k, b) \<in> set (cleanup_dict t now)" and "(v, e, ttl) \<in> set b"
  shows "e > now"
  using assms by (auto simp: cleanup_dict_sweep sweep_spec_def)

text \<open>A sweep at a time that is not after the query does not change a lookup.\<close>

lemma map_of_sweep_spec:
  assumes "is_dict t"
  shows "map_of (sweep_spec t s) k =
           (case map_of t k of
              None \<Rightarrow> None
            | Some b \<Rightarrow>
                if filter (\<lambda>(v, e). fst e > s) b = [] then None
                else Some (filter (\<lambda>(v, e). fst e > s) b))"
  using assms
proof (induction t)
  case Nil
  then show ?case by (simp add: sweep_spec_def)
next
  case (Cons x t)
  obtain k' b where x: "x = (k', b)" by (cases x) auto
  from Cons.prems have d: "is_dict t" and fresh: "k' \<notin> fst ` set t"
    by (simp_all add: is_dict_def x)
  have ih: "map_of (sweep_spec t s) k =
           (case map_of t k of
              None \<Rightarrow> None
            | Some b \<Rightarrow>
                if filter (\<lambda>(v, e). fst e > s) b = [] then None
                else Some (filter (\<lambda>(v, e). fst e > s) b))"
    by (rule Cons.IH [OF d])
  have tail: "sweep_spec ((k', b) # t) s =
      (if filter (\<lambda>(v, e). fst e > s) b = [] then sweep_spec t s
       else (k', filter (\<lambda>(v, e). fst e > s) b) # sweep_spec t s)"
    by (simp add: sweep_spec_def)
  show ?case
  proof (cases "k = k'")
    case True
    have "map_of t k = None" using fresh True by (simp add: map_of_eq_None_iff)
    then have "map_of (sweep_spec t s) k = None" using ih by simp
    then show ?thesis using True by (simp add: tail x)
  next
    case False
    then show ?thesis using ih by (simp add: tail x)
  qed
qed

lemma sweep_before_query_keeps_lookup:
  assumes "is_dict t" and "s \<le> now"
  shows "get_valid_entries (cleanup_dict t s) now key = get_valid_entries t now key"
proof (cases "map_of t key")
  case None
  then show ?thesis
    using map_of_sweep_spec [OF assms(1), of s key]
    by (simp add: cleanup_dict_sweep [OF assms(1)] get_valid_entries_def dict_in_def)
next
  case (Some b)
  let ?b' = "filter (\<lambda>(v, e). fst e > s) b"
  have f: "filter (\<lambda>(entry, (expire, _)). expire > now) ?b'
             = filter (\<lambda>(entry, (expire, _)). expire > now) b"
    using assms(2) by (induction b) auto
  show ?thesis
  proof (cases "?b' = []")
    case True
    then have "filter (\<lambda>(entry, (expire, _)). expire > now) b = []" using f by simp
    then show ?thesis
      using map_of_sweep_spec [OF assms(1), of s key] Some True
      by (simp add: cleanup_dict_sweep [OF assms(1)] get_valid_entries_def dict_in_def
          bucket_of_def)
  next
    case False
    then show ?thesis
      using map_of_sweep_spec [OF assms(1), of s key] Some f
      by (simp add: cleanup_dict_sweep [OF assms(1)] get_valid_entries_def dict_in_def
          bucket_of_def)
  qed
qed

subsection \<open>The operations keep tables dicts of dicts\<close>

lemma dict_set_twice: "dict_set (dict_set d k a) k b = dict_set d k b"
  by (induction d) auto

lemma dict_set_nonempty: "dict_set d k v \<noteq> []"
  by (induction d k v rule: dict_set.induct) simp_all

lemma list_all_dict_set:
  "list_all (\<lambda>kb. Q (snd kb)) d \<Longrightarrow> Q v \<Longrightarrow> list_all (\<lambda>kb. Q (snd kb)) (dict_set d k v)"
  by (induction d) auto

lemma add_to_dict_alt:
  "add_to_dict d key v e ttl =
     dict_set d key (dict_set (bucket_of d key) v (e, ttl))"
proof (cases "dict_in key d")
  case True
  then show ?thesis by (simp add: add_to_dict_def)
next
  case False
  then have "bucket_of d key = []" by (simp add: dict_in_def bucket_of_def)
  moreover have "bucket_of (dict_set d key []) key = []"
    by (simp add: bucket_of_def map_of_dict_set_same)
  ultimately show ?thesis
    using False by (simp add: add_to_dict_def dict_set_twice)
qed

lemma insert_no_empty_bucket:
  "no_empty_bucket d \<Longrightarrow> no_empty_bucket (add_to_dict d key v e ttl)"
  unfolding no_empty_bucket_def add_to_dict_alt
  by (rule list_all_dict_set) (simp_all add: dict_set_nonempty)

lemma is_dict_bucket_of:
  "list_all (\<lambda>kb. is_dict (snd kb)) d \<Longrightarrow> is_dict (bucket_of d k)"
proof -
  assume a: "list_all (\<lambda>kb. is_dict (snd kb)) d"
  show ?thesis
  proof (cases "map_of d k")
    case None
    then show ?thesis by (simp add: bucket_of_def is_dict_def)
  next
    case (Some b)
    then have "(k, b) \<in> set d" by (rule map_of_SomeD)
    with a have "is_dict b" by (auto simp: list_all_iff)
    with Some show ?thesis by (simp add: bucket_of_def)
  qed
qed

lemma insert_wf_table: "wf_table d \<Longrightarrow> wf_table (add_to_dict d key v e ttl)"
  unfolding wf_table_def add_to_dict_alt
  by (auto intro!: is_dict_dict_set list_all_dict_set is_dict_bucket_of)

lemma is_dict_filter: "is_dict d \<Longrightarrow> is_dict (filter P d)"
  by (simp add: is_dict_def distinct_map_filter)

lemma keys_map_bucket: "map fst (map (\<lambda>(key, entries). (key, g key entries)) t) = map fst t"
  by (induction t) auto

lemma is_dict_map_bucket: "is_dict t \<Longrightarrow> is_dict (map (\<lambda>(key, entries). (key, g key entries)) t)"
  unfolding is_dict_def keys_map_bucket .

lemma sweep_wf_table: "wf_table t \<Longrightarrow> wf_table (cleanup_dict t now)"
proof -
  assume w: "wf_table t"
  then have d: "is_dict t" by (simp add: wf_table_def)
  have "is_dict (sweep_spec t now)"
    unfolding sweep_spec_def by (intro is_dict_filter is_dict_map_bucket d)
  moreover have "list_all (\<lambda>kb. is_dict (snd kb)) (sweep_spec t now)"
    using w by (auto simp: sweep_spec_def wf_table_def list_all_iff is_dict_filter)
  ultimately show ?thesis by (simp add: cleanup_dict_sweep [OF d] wf_table_def)
qed

lemma restore_wf_table:
  assumes "wf_table s"
  shows "wf_table (restore_from_serialized s (now - ts) now)"
proof -
  have d: "is_dict s" using assms by (simp add: wf_table_def)
  have "is_dict (restore_spec s ts now)"
    unfolding restore_spec_def by (intro is_dict_map_bucket d)
  moreover have "is_dict (map (\<lambda>(v, (expiresAt, ttl)). (v, (expiresAt - (now - ts), ttl)))
                      (filter P b))" if "is_dict b" for b :: bucket and P
    using is_dict_map_bucket [OF is_dict_filter [OF that], of "\<lambda>v (expiresAt, ttl). (expiresAt - (now - ts), ttl)" P]
    by (simp add: case_prod_unfold)
  then have "list_all (\<lambda>kb. is_dict (snd kb)) (restore_spec s ts now)"
    using assms by (auto simp: restore_spec_def wf_table_def list_all_iff)
  ultimately show ?thesis
    by (simp add: restore_from_serialized_spec [OF assms] wf_table_def)
qed

section \<open>Properties of the message codec\<close>

subsection \<open>Bytes and characters\<close>

lemma unat_byte_of_nat: "n < 256 \<Longrightarrow> unat (of_nat n :: byte) = n"
  by (simp add: unat_of_nat)

lemma pointer_flag_ge: "(w :: byte) AND 0xc0 = 0xc0 \<Longrightarrow> 192 \<le> unat w"
  using word_and_le2 [of w "0xc0"] by (simp add: word_le_nat_alt)

lemma be_nat_pack_H: "pack_H n = Inr l \<Longrightarrow> be_nat l = n \<and> length l = 2"
  by (auto simp: pack_H_def be_nat_def unat_byte_of_nat split: if_splits)

lemma char_of_byte_of_char: "char_of_byte (byte_of_char c) = c"
proof -
  have "(of_char c :: nat) < 256" by simp
  then show ?thesis
    by (simp add: char_of_byte_def byte_of_char_def unat_byte_of_nat)
qed

lemma byte_of_char_less:
  assumes "(of_char c :: nat) < 128"
  shows "byte_of_char c < 128"
proof -
  have "unat (byte_of_char c) = of_char c"
    using assms by (simp add: byte_of_char_def unat_byte_of_nat)
  then show ?thesis using assms by (simp add: word_less_nat_alt)
qed

lemma decode_encoded_label:
  assumes "list_all (\<lambda>c. (of_char c :: nat) < 128) l"
  shows "decode_ascii (map byte_of_char l) = Inr l"
proof -
  have "list_all (\<lambda>x. x < 128) (map byte_of_char l)"
    using assms by (induction l) (auto simp: byte_of_char_less)
  moreover have "map char_of_byte (map byte_of_char l) = l"
    by (induction l) (auto simp: char_of_byte_of_char)
  ultimately show ?thesis by (simp add: decode_ascii_def)
qed

subsection \<open>Splitting and joining\<close>

lemma split_dot_nonempty: "split_dot s \<noteq> []"
  by (induction s) (auto split: list.splits)

lemma join_dot_cons_char: "join_dot ((c # p) # ps) = c # join_dot (p # ps)"
  by (cases ps) auto

lemma join_split: "join_dot (split_dot s) = s"
proof (induction s)
  case Nil
  then show ?case by simp
next
  case (Cons c cs)
  obtain p ps where sp: "split_dot cs = p # ps"
    using split_dot_nonempty [of cs] by (cases "split_dot cs") auto
  show ?case
    using Cons.IH by (simp add: sp join_dot_cons_char)
qed


subsection \<open>\<open>_encode_name\<close>\<close>

lemma encode_parts_ok: "list_all label_ok ps \<Longrightarrow> \<exists>b. encode_parts ps = Inr b"
  by (induction ps) (auto simp: label_ok_def pack_B_def encode_ascii_def)






subsection \<open>Round trip\<close>

lemma parse_encoded_parts:
  assumes "list_all wire_label ls" and "encode_parts ls = Inr enc"
  shows "parse_loop depth (pre @ enc @ 0 # post) (length pre) acc
           = Inr (join_dot (acc @ ls), length pre + length enc + 1)"
  using assms
proof (induction ls arbitrary: pre acc enc)
  case Nil
  then show ?case by (subst parse_loop.simps) simp
next
  case (Cons l ls)
  from Cons.prems(1) have "wire_label l" and rest: "list_all wire_label ls"
    by simp_all
  then have wl: "l \<noteq> []" "length l \<le> 63" "list_all (\<lambda>c. (of_char c :: nat) < 128) l"
    by (simp_all add: wire_label_def)
  from Cons.prems(2) wl obtain enc' where
    enc': "encode_parts ls = Inr enc'" and
    enc: "enc = of_nat (length l) # map byte_of_char l @ enc'"
    by (auto simp: pack_B_def encode_ascii_def split: sum.splits)
  let ?len = "of_nat (length l) :: byte"
  let ?data = "pre @ enc @ 0 # post"
  have ul: "unat ?len = length l" using wl(2) by (simp add: unat_byte_of_nat)
  have at: "?data ! length pre = ?len" by (simp add: enc)
  have nz: "?len \<noteq> 0"
  proof
    assume "?len = 0"
    then have "unat ?len = 0" by simp
    with ul wl(1) show False by simp
  qed
  have np: "?len AND 0xc0 \<noteq> 0xc0"
    using pointer_flag_ge [of ?len] ul wl(2) by auto
  have sl: "slice ?data (length pre + 1) (length pre + 1 + unat ?len) = map byte_of_char l"
    by (simp add: slice_def enc ul)
  have data': "?data = (pre @ ?len # map byte_of_char l) @ enc' @ 0 # post"
    by (simp add: enc)
  have ih: "parse_loop depth ?data (length pre + 1 + unat ?len) (acc @ [l])
      = Inr (join_dot ((acc @ [l]) @ ls),
             length (pre @ ?len # map byte_of_char l) + length enc' + 1)"
    using Cons.IH [OF rest enc', of "pre @ ?len # map byte_of_char l" "acc @ [l]"]
    by (subst data') (simp add: ul)
  have lt: "\<not> length ?data \<le> length pre" by simp
  show ?case
    apply (subst parse_loop.simps)
    apply (simp only: lt if_False at Let_def nz np sl decode_encoded_label [OF wl(3)] sum.case ih)
    apply (simp add: enc)
    done
qed

text \<open>
  C8. For a dotted name whose labels are non-empty ASCII strings of at most 63
  bytes, decoding the encoded name from offset 0 gives the name and the length
  of the encoding, at every depth of the interpreter's stack.
\<close>

theorem name_roundtrip:
  assumes "list_all wire_label (split_dot name)"
  shows "\<exists>enc. encode_name name = Inr enc \<and> parse_name depth enc 0 = Inr (name, length enc)"
proof -
  have "list_all label_ok (split_dot name)"
    using assms by (auto simp: list_all_iff wire_label_def label_ok_def)
  then obtain b where b: "encode_parts (split_dot name) = Inr b"
    using encode_parts_ok by blast
  have "parse_loop depth ([] @ b @ 0 # []) (length ([]::bytes)) []
          = Inr (join_dot ([] @ split_dot name), length ([]::bytes) + length b + 1)"
    by (rule parse_encoded_parts [OF assms b])
  then show ?thesis
    by (simp add: encode_name_def b parse_name_def join_split)
qed

theorem name_roundtrip_witness:
  "list_all wire_label (split_dot ''ab.c'')
   \<and> (\<exists>enc. encode_name ''ab.c'' = Inr enc
          \<and> parse_name 1000 enc 0 = Inr (''ab.c'', length enc))"
proof -
  have h: "list_all wire_label (split_dot ''ab.c'')" by (simp add: wire_label_def)
  show ?thesis using h name_roundtrip [OF h, of 1000] by simp
qed

text \<open>
  The name \<open>a.\<close> has the labels \<open>a\<close> and the empty string; its encoding has 4
  bytes, and decoding stops at the first zero byte with the name \<open>a\<close> and the
  offset 3.
\<close>

theorem trailing_dot_not_restored:
  "encode_name ''a.'' = Inr [1, 0x61, 0, 0]
   \<and> parse_name 1000 [1, 0x61, 0, 0] 0 = Inr (''a'', 3)"
  by (simp add: encode_name_def pack_B_def encode_ascii_def byte_of_char_def
      parse_name_def parse_loop.simps decode_ascii_def slice_def char_of_byte_def
      char_of_def bit_Suc_0_iff)

subsection \<open>\<open>_parse_name\<close> and compression pointers\<close>

lemma parse_loop_run:
  "parse_loop depth data offset name =
     (case label_run data offset name of
        RunError e \<Rightarrow> Inl e
      | RunEnd nm off \<Rightarrow> Inr (join_dot nm, off)
      | RunPointer nm p off \<Rightarrow>
          if depth = 0 then Inl RecursionError
          else
            (case parse_loop (depth - 1) data p [] of
               Inl e \<Rightarrow> Inl e
             | Inr (part, _) \<Rightarrow> Inr (join_dot (nm @ [part]), off)))"
proof (induction data offset name rule: label_run.induct)
  case (1 data offset name)
  show ?case
  proof (cases "length data \<le> offset")
    case True
    then show ?thesis
      by (subst parse_loop.simps, subst label_run.simps) simp
  next
    case False
    note inr = False
    show ?thesis
    proof (cases "data ! offset = 0")
      case True
      then show ?thesis
        using inr by (subst parse_loop.simps, subst label_run.simps) simp
    next
      case False
      note nz = False
      show ?thesis
      proof (cases "data ! offset AND 0xc0 = 0xc0")
        case True
        then show ?thesis
          using inr nz
          by (subst parse_loop.simps, subst label_run.simps) (simp split: sum.splits)
      next
        case False
        note np = False
        show ?thesis
        proof (cases "decode_ascii (slice data (offset + 1) (offset + 1 + unat (data ! offset)))")
          case (Inl e)
          then show ?thesis
            using inr nz np by (subst parse_loop.simps, subst label_run.simps) simp
        next
          case (Inr label)
          have l: "parse_loop depth data offset name
                   = parse_loop depth data (offset + 1 + unat (data ! offset)) (name @ [label])"
            using inr nz np Inr by (subst parse_loop.simps) simp
          have r: "label_run data offset name
                   = label_run data (offset + 1 + unat (data ! offset)) (name @ [label])"
            using inr nz np Inr by (subst label_run.simps) simp
          show ?thesis
            unfolding l r using "1.IH" [OF inr refl nz np Inr] .
        qed
      qed
    qed
  qed
qed

text \<open>The loop itself raises no \<open>RecursionError\<close>.\<close>

lemma unpack_H_error: "unpack_H b = Inl e \<Longrightarrow> e = StructError"
  by (auto simp: unpack_H_def split: list.splits)

lemma decode_ascii_error: "decode_ascii b = Inl e \<Longrightarrow> e = UnicodeDecodeError"
  by (auto simp: decode_ascii_def split: if_splits)

lemma label_run_error: "label_run data offset name \<noteq> RunError RecursionError"
proof (induction data offset name rule: label_run.induct)
  case (1 data offset name)
  show ?case
  proof (cases "length data \<le> offset")
    case True
    then have "label_run data offset name = RunError IndexError"
      by (subst label_run.simps) simp
    then show ?thesis by simp
  next
    case False
    note c1 = False
    show ?thesis
    proof (cases "data ! offset = 0")
      case True
      then have "label_run data offset name = RunEnd name (offset + 1)"
        using c1 by (subst label_run.simps) simp
      then show ?thesis by simp
    next
      case False
      note c2 = False
      show ?thesis
      proof (cases "data ! offset AND 0xc0 = 0xc0")
        case True
        then have "label_run data offset name =
            (case unpack_H (slice data offset (offset + 2)) of
               Inl e \<Rightarrow> RunError e
             | Inr w \<Rightarrow> RunPointer name (unat (w AND 0x3fff)) (offset + 2))"
          using c1 c2 by (subst label_run.simps) simp
        then show ?thesis
          by (auto split: sum.splits dest: unpack_H_error)
      next
        case False
        note c3 = False
        show ?thesis
        proof (cases "decode_ascii (slice data (offset + 1) (offset + 1 + unat (data ! offset)))")
          case (Inl e)
          then have "label_run data offset name = RunError e"
            using c1 c2 c3 by (subst label_run.simps) simp
          then show ?thesis using decode_ascii_error [OF Inl] by simp
        next
          case (Inr label)
          have l: "label_run data offset name
                     = label_run data (offset + 1 + unat (data ! offset)) (name @ [label])"
            using c1 c2 c3 Inr by (subst label_run.simps) simp
          show ?thesis
            unfolding l using "1.IH" [OF c1 refl c2 c3 Inr] .
        qed
      qed
    qed
  qed
qed

text \<open>
  \<open>RecursionError\<close> is raised exactly when the chain of pointers from the start
  does not end within the runs that the depth allows.
\<close>

lemma recursion_error_iff:
  "parse_loop depth data start [] = Inl RecursionError
     \<longleftrightarrow> \<not> chain_ends (Suc depth) data start"
proof (induction depth arbitrary: start)
  case 0
  show ?case
  proof (cases "label_run data start []")
    case (RunError e)
    then show ?thesis
      using label_run_error [of data start "[]"]
      by (simp add: parse_loop_run [of 0 data start] run_target_def)
  next
    case (RunEnd nm off)
    then show ?thesis by (simp add: parse_loop_run [of 0 data start] run_target_def)
  next
    case (RunPointer nm p off)
    then show ?thesis by (simp add: parse_loop_run [of 0 data start] run_target_def)
  qed
next
  case (Suc depth)
  show ?case
  proof (cases "label_run data start []")
    case (RunError e)
    then show ?thesis
      using label_run_error [of data start "[]"]
      by (simp add: parse_loop_run [of "Suc depth" data start] run_target_def)
  next
    case (RunEnd nm off)
    then show ?thesis by (simp add: parse_loop_run [of "Suc depth" data start] run_target_def)
  next
    case (RunPointer nm p off)
    have t: "run_target data start = Some p" using RunPointer by (simp add: run_target_def)
    have "parse_loop (Suc depth) data start [] = Inl RecursionError
            \<longleftrightarrow> parse_loop depth data p [] = Inl RecursionError"
      by (subst parse_loop_run) (auto simp: RunPointer split: sum.splits)
    also have "\<dots> \<longleftrightarrow> \<not> chain_ends (Suc depth) data p" by (rule Suc.IH)
    also have "\<dots> \<longleftrightarrow> \<not> chain_ends (Suc (Suc depth)) data start" by (simp add: t)
    finally show ?thesis .
  qed
qed


lemma chain_ends_Suc: "chain_ends n data s \<Longrightarrow> chain_ends (Suc n) data s"
proof (induction n arbitrary: s)
  case 0
  then show ?case by simp
next
  case (Suc n)
  then show ?case by (cases "run_target data s") auto
qed

lemma chain_ends_mono: "chain_ends n data s \<Longrightarrow> n \<le> m \<Longrightarrow> chain_ends m data s"
proof (induction m)
  case 0
  then show ?case by simp
next
  case (Suc m)
  show ?case
  proof (cases "n = Suc m")
    case True
    with Suc.prems(1) show ?thesis by (simp only:)
  next
    case False
    with Suc.prems(2) have "n \<le> m" by simp
    from Suc.IH [OF Suc.prems(1) this] show ?thesis by (rule chain_ends_Suc)
  qed
qed

text \<open>
  When the pointers of a message descend, the chain from an offset has at most
  as many pointers as the offset, so a depth of at least the offset is enough.
\<close>

lemma label_run_out_of_range:
  "length data \<le> start \<Longrightarrow> label_run data start name = RunError IndexError"
  by (subst label_run.simps) simp

lemma descending_chain_ends:
  assumes "pointers_descend data"
  shows "chain_ends (Suc start) data start"
proof (induction start rule: less_induct)
  case (less start)
  show ?case
  proof (cases "run_target data start")
    case None
    then show ?thesis by simp
  next
    case (Some p)
    have inr: "start < length data"
    proof (rule ccontr)
      assume "\<not> start < length data"
      then have "label_run data start [] = RunError IndexError"
        by (simp add: label_run_out_of_range)
      with Some show False by (simp add: run_target_def)
    qed
    have "\<forall>s \<in> set [0..<length data].
            (case run_target data s of Some p \<Rightarrow> p < s | None \<Rightarrow> True)"
      using assms by (simp add: pointers_descend_def list_all_iff)
    moreover have "start \<in> set [0..<length data]" using inr by simp
    ultimately have "case run_target data start of Some p \<Rightarrow> p < start | None \<Rightarrow> True"
      by blast
    then have lt: "p < start" by (simp add: Some)
    from less [OF lt] have "chain_ends (Suc p) data p" .
    from chain_ends_mono [OF this, of start] lt have "chain_ends start data p" by simp
    then show ?thesis by (simp add: Some)
  qed
qed

lemma descending_pointers_return:
  assumes "pointers_descend data" and "offset \<le> depth"
  shows "parse_name depth data offset \<noteq> Inl RecursionError"
proof -
  have "chain_ends (Suc depth) data offset"
    using chain_ends_mono [OF descending_chain_ends [OF assms(1), of offset], of "Suc depth"]
      assms(2)
    by simp
  then show ?thesis by (simp add: parse_name_def recursion_error_iff)
qed




subsection \<open>\<open>_build_response\<close>\<close>

lemma a_record_ok:
  "answer_record_ok [0x00, 0x01]
     ([0xc0, 0x0c, 0x00, 0x01, 0x00, 0x01, 0x00, 0x00, 0x00, 0x3c, 0x00, 0x04] @ [a, b, c, d])"
  by (simp add: answer_record_ok_def rr_name_def rr_type_def rr_class_def rr_ttl_def
      rr_rdlength_def rr_rdata_def slice_def be_nat_def)

lemma ptr_record_ok:
  assumes "pack_H (length encoded) = Inr l"
  shows "answer_record_ok [0x00, 0x0c]
     ([0xc0, 0x0c, 0x00, 0x0c, 0x00, 0x01, 0x00, 0x00, 0x00, 0x3c] @ l @ encoded)"
proof -
  obtain hi lo where l: "l = [hi, lo]"
    using assms by (auto simp: pack_H_def split: if_splits)
  have "be_nat [hi, lo] = length encoded"
    using be_nat_pack_H [OF assms] l by simp
  then show ?thesis
    by (simp add: l answer_record_ok_def rr_name_def rr_type_def rr_class_def rr_ttl_def
        rr_rdlength_def rr_rdata_def slice_def) (simp add: be_nat_def)
qed

lemma answers_loop_records:
  assumes "build_answers_loop aton qtype sect answers = Inr out"
    and "qtype = [0x00, 0x01] \<or> qtype = [0x00, 0x0c]"
  shows "\<exists>recs. out = sect @ concat recs \<and> length recs = length answers
           \<and> (\<forall>r \<in> set recs. answer_record_ok qtype r)"
  using assms
proof (induction answers arbitrary: sect)
  case Nil
  then show ?case by simp
next
  case (Cons answer answers)
  show ?case
  proof (cases "qtype = [0x00, 0x01]")
    case True
    from Cons.prems(1) True obtain a b c d where
      at: "aton answer = Some (a, b, c, d)" and
      rest: "build_answers_loop aton qtype
               (sect @ [0xc0, 0x0c, 0x00, 0x01, 0x00, 0x01, 0x00, 0x00, 0x00, 0x3c, 0x00, 0x04]
                  @ [a, b, c, d]) answers = Inr out"
      by (auto split: option.splits)
    let ?r = "[0xc0, 0x0c, 0x00, 0x01, 0x00, 0x01, 0x00, 0x00, 0x00, 0x3c, 0x00, 0x04] @ [a, b, c, d]"
    from Cons.IH [OF rest Cons.prems(2)] obtain recs where
      r: "out = (sect @ ?r) @ concat recs" "length recs = length answers"
         "\<forall>r \<in> set recs. answer_record_ok qtype r"
      by auto
    have "answer_record_ok qtype ?r" using True a_record_ok by simp
    with r have "out = sect @ concat (?r # recs) \<and> length (?r # recs) = length (answer # answers)
        \<and> (\<forall>r \<in> set (?r # recs). answer_record_ok qtype r)"
      by simp
    then show ?thesis by blast
  next
    case False
    with Cons.prems(2) have q: "qtype = [0x00, 0x0c]" by simp
    from Cons.prems(1) q obtain encoded l where
      en: "encode_name answer = Inr encoded" and pl: "pack_H (length encoded) = Inr l" and
      rest: "build_answers_loop aton qtype
               (sect @ [0xc0, 0x0c, 0x00, 0x0c, 0x00, 0x01, 0x00, 0x00, 0x00, 0x3c]
                  @ l @ encoded) answers = Inr out"
      by (auto split: sum.splits)
    let ?r = "[0xc0, 0x0c, 0x00, 0x0c, 0x00, 0x01, 0x00, 0x00, 0x00, 0x3c] @ l @ encoded"
    from Cons.IH [OF rest Cons.prems(2)] obtain recs where
      r: "out = (sect @ ?r) @ concat recs" "length recs = length answers"
         "\<forall>r \<in> set recs. answer_record_ok qtype r"
      by auto
    have "answer_record_ok qtype ?r" using q ptr_record_ok [OF pl] by simp
    with r have "out = sect @ concat (?r # recs) \<and> length (?r # recs) = length (answer # answers)
        \<and> (\<forall>r \<in> set (?r # recs). answer_record_ok qtype r)"
      by simp
    then show ?thesis by blast
  qed
qed

lemma build_response_parts:
  assumes "build_response aton tid query qtype answers = Inr msg"
  shows "\<exists>ancount qname answers_section.
           pack_H (length answers) = Inr ancount \<and> encode_name query = Inr qname
         \<and> build_answers_section aton qtype answers = Inr answers_section
         \<and> msg = (tid @ [0x81, 0x80, 0x00, 0x01] @ ancount @ [0x00, 0x00, 0x00, 0x00])
                 @ (qname @ qtype @ [0x00, 0x01]) @ answers_section"
  using assms by (auto simp: build_response_def Let_def split: sum.splits)

lemma sample_a_response:
  "build_response aton_example [0x12, 0x34] ''a'' [0x00, 0x01] [''93.184.216.34'']
     = Inr sample_a_message"
  by (simp add: build_response_def build_answers_section_def encode_name_def pack_H_def
      pack_B_def encode_ascii_def byte_of_char_def aton_example_def sample_a_message_def)

lemma sample_ptr_response:
  "build_response aton_example [0x12, 0x34] ''a'' [0x00, 0x0c] [''b'']
     = Inr sample_ptr_message"
  by (simp add: build_response_def build_answers_section_def encode_name_def pack_H_def
      pack_B_def encode_ascii_def byte_of_char_def sample_ptr_message_def)

lemma built_records:
  assumes "build_response aton tid query qtype answers = Inr msg"
    and "length tid = 2"
    and "qtype = [0x00, 0x01] \<or> qtype = [0x00, 0x0c]"
  shows "\<exists>qname recs. encode_name query = Inr qname
           \<and> msg = take 12 msg @ (qname @ qtype @ [0x00, 0x01]) @ concat recs
           \<and> length recs = length answers
           \<and> (\<forall>r \<in> set recs. rr_ttl r = 60 \<and> rr_name r = [0xc0, 0x0c]
                 \<and> rr_rdlength r = length (rr_rdata r))"
proof -
  from build_response_parts [OF assms(1)] obtain ancount qname answers_section where
    p: "pack_H (length answers) = Inr ancount" "encode_name query = Inr qname"
       "build_answers_section aton qtype answers = Inr answers_section"
       "msg = (tid @ [0x81, 0x80, 0x00, 0x01] @ ancount @ [0x00, 0x00, 0x00, 0x00])
                 @ (qname @ qtype @ [0x00, 0x01]) @ answers_section"
    by blast
  have "length ancount = 2" using be_nat_pack_H [OF p(1)] by simp
  then have h: "take 12 msg = tid @ [0x81, 0x80, 0x00, 0x01] @ ancount @ [0x00, 0x00, 0x00, 0x00]"
    using assms(2) by (simp add: p(4))
  from p(3) answers_loop_records [OF _ assms(3), of aton "[]" answers answers_section]
  obtain recs where r: "answers_section = concat recs" "length recs = length answers"
    "\<forall>r \<in> set recs. answer_record_ok qtype r"
    by (auto simp: build_answers_section_def)
  have "msg = take 12 msg @ (qname @ qtype @ [0x00, 0x01]) @ concat recs"
    using h p(4) r(1) by simp
  with p(2) r(2) r(3) show ?thesis
    unfolding answer_record_ok_def by blast
qed

text \<open>
  C9. In a message built for an address or a pointer query, the bytes after the
  question are one record per answer, and every record has the ttl 60; the
  function is not given the ttl of a cache entry.
\<close>

theorem answer_ttl_fixed:
  assumes "build_response aton tid query qtype answers = Inr msg"
    and "length tid = 2"
    and "qtype = [0x00, 0x01] \<or> qtype = [0x00, 0x0c]"
  shows "\<exists>qname recs. encode_name query = Inr qname
           \<and> msg = take 12 msg @ (qname @ qtype @ [0x00, 0x01]) @ concat recs
           \<and> length recs = length answers
           \<and> (\<forall>r \<in> set recs. rr_ttl r = 60 \<and> rr_name r = [0xc0, 0x0c]
                 \<and> rr_rdlength r = length (rr_rdata r))"
  using assms by (rule built_records)

theorem answer_ttl_fixed_witness:
  "\<exists>qname recs. encode_name ''a'' = Inr qname
     \<and> sample_a_message = take 12 sample_a_message @ (qname @ [0x00, 0x01] @ [0x00, 0x01])
         @ concat recs
     \<and> length recs = length [''93.184.216.34'']
     \<and> (\<forall>r \<in> set recs. rr_ttl r = 60 \<and> rr_name r = [0xc0, 0x0c]
           \<and> rr_rdlength r = length (rr_rdata r))"
  by (rule answer_ttl_fixed [OF sample_a_response]) simp_all

text \<open>
  A response served from the cache has the ttl 60 in every record, whatever the
  cache holds: the expiry and the ttl of the entries are not passed on.
\<close>

lemma cached_response_ttl_fixed:
  assumes "get_cached_response aton c now tid query qtype = Some msg" and "length tid = 2"
  shows "\<exists>qname recs. encode_name query = Inr qname
           \<and> msg = take 12 msg @ (qname @ qtype @ [0x00, 0x01]) @ concat recs
           \<and> (\<forall>r \<in> set recs. rr_ttl r = 60)"
proof -
  from assms(1) obtain answers where
    b: "build_response aton tid query qtype answers = Inr msg"
    and q: "qtype = [0x00, 0x01] \<or> qtype = [0x00, 0x0c]"
    by (auto simp: get_cached_response_def split: if_splits option.splits sum.splits)
  from built_records [OF b assms(2) q] show ?thesis by blast
qed

lemma slice_middle: "length h = n \<Longrightarrow> slice (h @ q @ r) n (n + length q) = q"
  by (simp add: slice_def)

text \<open>
  C5. The question of a built message holds, at offset 12, the query name
  encoded again with length bytes, which ends in a zero byte and so is never
  the 2-byte pointer \<open>c0 0c\<close>, followed by the query type and the class.
\<close>

theorem question_name_encoded:
  assumes "build_response aton tid query qtype answers = Inr msg" and "length tid = 2"
  shows "\<exists>qname. encode_name query = Inr qname
           \<and> qname \<noteq> [0xc0, 0x0c]
           \<and> slice msg 12 (12 + length qname) = qname
           \<and> slice msg (12 + length qname) (12 + length qname + length qtype + 2)
               = qtype @ [0x00, 0x01]"
proof -
  from build_response_parts [OF assms(1)] obtain ancount qname answers_section where
    p: "pack_H (length answers) = Inr ancount" "encode_name query = Inr qname"
       "msg = (tid @ [0x81, 0x80, 0x00, 0x01] @ ancount @ [0x00, 0x00, 0x00, 0x00])
                 @ (qname @ qtype @ [0x00, 0x01]) @ answers_section"
    by blast
  let ?h = "tid @ [0x81, 0x80, 0x00, 0x01] @ ancount @ [0x00, 0x00, 0x00, 0x00]"
  have "length ancount = 2" using be_nat_pack_H [OF p(1)] by simp
  then have len: "length ?h = 12" "length (?h @ qname) = 12 + length qname"
    using assms(2) by simp_all
  have m1: "msg = ?h @ qname @ (qtype @ [0x00, 0x01]) @ answers_section"
    and m2: "msg = (?h @ qname) @ (qtype @ [0x00, 0x01]) @ answers_section"
    using p(3) by simp_all
  have "slice msg 12 (12 + length qname) = qname"
    using slice_middle [OF len(1), of qname] by (subst m1) simp
  moreover have "slice msg (12 + length qname) (12 + length qname + length qtype + 2)
               = qtype @ [0x00, 0x01]"
    using slice_middle [OF len(2), of "qtype @ [0x00, 0x01]" answers_section]
    by (subst m2) (simp add: add.assoc)
  moreover have "qname \<noteq> [0xc0, 0x0c]"
  proof
    assume "qname = [0xc0, 0x0c]"
    moreover have "last qname = 0"
      using p(2) by (auto simp: encode_name_def split: sum.splits)
    ultimately show False by simp
  qed
  ultimately have "qname \<noteq> [0xc0, 0x0c]
           \<and> slice msg 12 (12 + length qname) = qname
           \<and> slice msg (12 + length qname) (12 + length qname + length qtype + 2)
               = qtype @ [0x00, 0x01]"
    by simp
  with p(2) show ?thesis by blast
qed

theorem question_name_encoded_witness:
  "\<exists>qname. encode_name ''a'' = Inr qname
     \<and> qname \<noteq> [0xc0, 0x0c]
     \<and> slice sample_ptr_message 12 (12 + length qname) = qname
     \<and> slice sample_ptr_message (12 + length qname)
          (12 + length qname + length [0x00, 0x0c :: byte] + 2) = [0x00, 0x0c] @ [0x00, 0x01]"
  by (rule question_name_encoded [OF sample_ptr_response]) simp

text \<open>
  In the message built for the query name \<open>a\<close>, the three bytes at offset 12 are
  the length-prefixed name \<open>01 61 00\<close>, not the pointer \<open>c0 0c\<close>.
\<close>

theorem question_name_not_pointer:
  "build_response aton_example [0x12, 0x34] ''a'' [0x00, 0x0c] [''b''] = Inr sample_ptr_message
   \<and> slice sample_ptr_message 12 15 = [1, 0x61, 0]"
  by (simp add: build_response_def build_answers_section_def encode_name_def pack_H_def
      pack_B_def encode_ascii_def byte_of_char_def sample_ptr_message_def slice_def)

text \<open>
  C4. The header of a built message has the transaction id of the query, the
  flags \<open>0x8180\<close> (a response, opcode 0, no error, recursion desired and
  recursion available both set), question count 1, answer count the number of
  answers, and authority and additional counts 0.
\<close>

theorem response_header:
  assumes "build_response aton tid query qtype answers = Inr msg" and "length tid = 2"
  shows "hdr_id msg = tid \<and> hdr_flags msg = 0x8180
       \<and> flag_qr (hdr_flags msg) \<and> flag_opcode (hdr_flags msg) = 0
       \<and> \<not> flag_aa (hdr_flags msg) \<and> \<not> flag_tc (hdr_flags msg)
       \<and> flag_rd (hdr_flags msg) \<and> flag_ra (hdr_flags msg)
       \<and> flag_rcode (hdr_flags msg) = 0
       \<and> hdr_qdcount msg = 1 \<and> hdr_ancount msg = length answers
       \<and> hdr_nscount msg = 0 \<and> hdr_arcount msg = 0"
proof -
  obtain t1 t2 where tid: "tid = [t1, t2]"
    using assms(2) by (cases tid; cases "tl tid") auto
  obtain l where l: "pack_H (length answers) = Inr l"
    using assms(1) by (auto simp: build_response_def split: sum.splits)
  then obtain hi lo where hl: "l = [hi, lo]"
    by (auto simp: pack_H_def split: if_splits)
  obtain rest where msg: "msg = [t1, t2, 0x81, 0x80, 0x00, 0x01, hi, lo, 0, 0, 0, 0] @ rest"
    using assms(1) l by (auto simp: build_response_def tid hl Let_def split: sum.splits)
  have an: "be_nat [hi, lo] = length answers"
    using be_nat_pack_H [OF l] hl by simp
  have f: "hdr_flags msg = 0x8180"
    by (simp add: msg hdr_flags_def slice_def be_nat_def)
  have "hdr_id msg = tid" by (simp add: msg tid hdr_id_def slice_def)
  moreover have "hdr_qdcount msg = 1" by (simp add: msg hdr_qdcount_def slice_def be_nat_def)
  moreover have "hdr_ancount msg = length answers"
    using an by (simp add: msg hdr_ancount_def slice_def)
  moreover have "hdr_nscount msg = 0" by (simp add: msg hdr_nscount_def slice_def be_nat_def)
  moreover have "hdr_arcount msg = 0" by (simp add: msg hdr_arcount_def slice_def be_nat_def)
  moreover have "flag_qr (0x8180) \<and> flag_opcode 0x8180 = 0 \<and> \<not> flag_aa 0x8180
      \<and> \<not> flag_tc 0x8180 \<and> flag_rd 0x8180 \<and> flag_ra 0x8180 \<and> flag_rcode 0x8180 = 0"
    by (simp add: flag_qr_def flag_opcode_def flag_aa_def flag_tc_def flag_rd_def flag_ra_def
        flag_rcode_def)
  ultimately show ?thesis using f by simp
qed

theorem response_header_witness:
  "build_response aton_example [0x12, 0x34] ''a'' [0x00, 0x01] [''93.184.216.34'']
     = Inr sample_a_message
   \<and> hdr_id sample_a_message = [0x12, 0x34] \<and> hdr_flags sample_a_message = 0x8180
   \<and> hdr_qdcount sample_a_message = 1 \<and> hdr_ancount sample_a_message = 1
   \<and> hdr_nscount sample_a_message = 0 \<and> hdr_arcount sample_a_message = 0"
  using sample_a_response response_header [OF sample_a_response] by simp

text \<open>The recursion-available bit of the header of a built message is set.\<close>

theorem response_claims_recursion_available:
  "build_response aton_example [0x12, 0x34] ''a'' [0x00, 0x01] [''93.184.216.34'']
     = Inr sample_a_message
   \<and> flag_ra (hdr_flags sample_a_message)"
  by (simp add: build_response_def build_answers_section_def encode_name_def pack_H_def
      pack_B_def encode_ascii_def byte_of_char_def aton_example_def sample_a_message_def
      hdr_flags_def slice_def be_nat_def flag_ra_def)

end
